theory Spec2Isabelle
  imports Main "HOL-Library.Sublist"
begin

section \<open>Security utilities of Label Studio (label\_studio/core/utils/security.py)\<close>

text \<open>
  The module is a handful of pure string functions. A Python \<open>str\<close> is modelled as a
  \<open>string\<close> (a list of characters with codes 0..255), a Python \<open>int\<close> as \<open>int\<close>,
  \<open>Optional[str]\<close> as \<open>string option\<close> and a \<open>dict\<close> as a map.
\<close>

subsection \<open>Python string primitives used by the module\<close>

text \<open>\<open>sub in s\<close> on strings: \<open>sub\<close> occurs in \<open>s\<close> at some position.\<close>

fun str_contains :: "string \<Rightarrow> string \<Rightarrow> bool" where
  "str_contains sub [] = (sub = [])"
| "str_contains sub (c # cs) = (prefix sub (c # cs) \<or> str_contains sub cs)"

text \<open>
  \<open>str.lower()\<close> on the code points below 256: the ASCII capitals and the Latin-1
  capitals (0xC0..0xDE without the multiplication sign 0xD7) move up by 32.
\<close>

definition lower_char :: "char \<Rightarrow> char" where
  "lower_char c =
     (let n = (of_char c :: nat)
      in if (0x41 \<le> n \<and> n \<le> 0x5A) \<or> (0xC0 \<le> n \<and> n \<le> 0xDE \<and> n \<noteq> 0xD7)
         then char_of (n + 32) else c)"

definition lower :: "string \<Rightarrow> string" where
  "lower s = map lower_char s"

text \<open>\<open>s[i:]\<close> and \<open>s[:j]\<close>: a negative bound counts from the end, and both clamp.\<close>

definition slice_from :: "int \<Rightarrow> 'a list \<Rightarrow> 'a list" where
  "slice_from i xs =
     (let n = int (length xs);
          start = (if i < 0 then max (n + i) 0 else min i n)
      in drop (nat start) xs)"

definition slice_to :: "int \<Rightarrow> 'a list \<Rightarrow> 'a list" where
  "slice_to j xs =
     (let n = int (length xs);
          stop = (if j < 0 then max (n + j) 0 else min j n)
      in take (nat stop) xs)"

text \<open>\<open>c * n\<close> for a one-character string: empty when \<open>n\<close> is not positive.\<close>

definition str_repeat :: "char \<Rightarrow> int \<Rightarrow> string" where
  "str_repeat c n = replicate (nat n) c"

text \<open>
  \<open>s.replace(old, new)\<close>: the occurrences of \<open>old\<close> are found from the left and do not
  overlap; an empty \<open>old\<close> puts \<open>new\<close> around every character.
\<close>

function replace_str :: "string \<Rightarrow> string \<Rightarrow> string \<Rightarrow> string" where
  "replace_str old new [] = (if old = [] then new else [])"
| "replace_str old new (c # cs) =
     (if old = [] then new @ c # replace_str old new cs
      else if prefix old (c # cs)
           then new @ replace_str old new (drop (length old) (c # cs))
           else c # replace_str old new cs)"
  by pat_completeness auto
termination
  by (relation "measure (\<lambda>(old, new, s). length s)") auto

subsection \<open>Sensitive field names\<close>

definition SENSITIVE_FIELDS :: "string set" where
  "SENSITIVE_FIELDS =
     {''password'', ''token'', ''api_key'', ''apikey'', ''secret'', ''credential'',
      ''auth'', ''authorization'', ''access_token'', ''refresh_token'',
      ''private_key'', ''secret_key''}"

definition is_sensitive_field :: "string \<Rightarrow> bool" where
  "is_sensitive_field field_name =
     (let field_lower = lower field_name
      in \<exists>sensitive \<in> SENSITIVE_FIELDS. str_contains sensitive field_lower)"

subsection \<open>Masking\<close>

definition mask_sensitive_value :: "string \<Rightarrow> int \<Rightarrow> string" where
  "mask_sensitive_value v visible_chars =
     (if v = [] \<or> int (length v) \<le> visible_chars then ''****''
      else str_repeat (CHR ''*'') (int (length v) - visible_chars)
           @ slice_from (- visible_chars) v)"

subsection \<open>Log sanitizer\<close>

abbreviation ESC :: char where "ESC \<equiv> CHR 0x1B"
abbreviation LF :: char where "LF \<equiv> CHR 0x0A"
abbreviation CR :: char where "CR \<equiv> CHR 0x0D"
abbreviation BSL :: char where "BSL \<equiv> CHR 0x5C"

text \<open>The character classes of the pattern
  \<^verbatim>\<open>\x1B(?:[@-Z\\-_]|\[[0-?]*[ -/]*[@-~])\<close>.\<close>

definition in_range :: "nat \<Rightarrow> nat \<Rightarrow> char \<Rightarrow> bool" where
  "in_range lo hi c = (lo \<le> of_char c \<and> (of_char c :: nat) \<le> hi)"

definition is_fe :: "char \<Rightarrow> bool" where
  \<comment> \<open>\<^verbatim>\<open>[@-Z\\-_]\<close>: 0x40..0x5A and 0x5C..0x5F, so every byte of 0x40..0x5F but \<^verbatim>\<open>[\<close>\<close>
  "is_fe c = (in_range 0x40 0x5A c \<or> in_range 0x5C 0x5F c)"

definition is_param :: "char \<Rightarrow> bool" where
  \<comment> \<open>\<^verbatim>\<open>[0-?]\<close>\<close>
  "is_param c = in_range 0x30 0x3F c"

definition is_inter :: "char \<Rightarrow> bool" where
  \<comment> \<open>\<^verbatim>\<open>[ -/]\<close>\<close>
  "is_inter c = in_range 0x20 0x2F c"

definition is_final :: "char \<Rightarrow> bool" where
  \<comment> \<open>\<^verbatim>\<open>[@-~]\<close>\<close>
  "is_final c = in_range 0x40 0x7E c"

text \<open>
  One match attempt of the pattern at the head of the string: \<open>Some rest\<close> with the text
  after the match, or \<open>None\<close>. The first alternative is tried first; in the second the
  two starred classes take all they can, and giving characters back never helps, since
  the three classes are pairwise disjoint.
\<close>

definition ansi_match :: "string \<Rightarrow> string option" where
  "ansi_match s =
     (case s of
        e # c # rest \<Rightarrow>
          if e \<noteq> ESC then None
          else if is_fe c then Some rest
          else if c = CHR ''['' then
            (case dropWhile is_inter (dropWhile is_param rest) of
               f # rest' \<Rightarrow> if is_final f then Some rest' else None
             | [] \<Rightarrow> None)
          else None
      | _ \<Rightarrow> None)"

text \<open>\<open>ansi_escape.sub('', s)\<close>: every match found scanning from the left is dropped.\<close>

function ansi_escape_sub :: "string \<Rightarrow> string" where
  "ansi_escape_sub [] = []"
| "ansi_escape_sub (c # cs) =
     (case ansi_match (c # cs) of
        Some rest \<Rightarrow> ansi_escape_sub rest
      | None \<Rightarrow> c # ansi_escape_sub cs)"
  by pat_completeness auto
termination
proof (relation "measure length")
  fix c cs rest
  assume m: "ansi_match (c # cs) = Some rest"
  have d: "length (dropWhile is_inter (dropWhile is_param r)) \<le> length r" for r
    by (rule order_trans [OF length_dropWhile_le length_dropWhile_le])
  have "length rest < length (c # cs)"
  proof (cases cs)
    case Nil
    with m show ?thesis by (simp add: ansi_match_def)
  next
    case (Cons b r)
    with m have "rest = r \<or> (\<exists>f. dropWhile is_inter (dropWhile is_param r) = f # rest)"
      by (auto simp: ansi_match_def split: if_splits list.splits)
    then have "length rest \<le> length r"
    proof
      assume "rest = r"
      then show ?thesis by simp
    next
      assume "\<exists>f. dropWhile is_inter (dropWhile is_param r) = f # rest"
      then obtain f where "dropWhile is_inter (dropWhile is_param r) = f # rest" ..
      with d [of r] show ?thesis by simp
    qed
    with Cons show ?thesis by simp
  qed
  then show "(rest, c # cs) \<in> measure length" by simp
qed auto

text \<open>The three replacements of line ends, in the order of the source.\<close>

definition escape_newlines :: "string \<Rightarrow> string" where
  "escape_newlines s =
     replace_str [CR] [BSL, CHR ''r'']
       (replace_str [LF] [BSL, CHR ''n'']
          (replace_str [CR, LF] [BSL, CHR ''r'', BSL, CHR ''n''] s))"

definition truncate_log :: "int \<Rightarrow> string \<Rightarrow> string" where
  "truncate_log max_length s =
     (if int (length s) > max_length then slice_to max_length s @ ''...[truncated]''
      else s)"

text \<open>
  The argument is \<open>None\<close> for Python's \<open>None\<close> and \<open>Some s\<close> for any other value, \<open>s\<close>
  being what \<open>str(value)\<close> returns.
\<close>

definition sanitize_for_logging :: "string option \<Rightarrow> int \<Rightarrow> string" where
  "sanitize_for_logging v max_length =
     (case v of
        None \<Rightarrow> ''None''
      | Some str_value \<Rightarrow>
          truncate_log max_length (ansi_escape_sub (escape_newlines str_value)))"

definition sanitize_log_input :: "string option \<Rightarrow> string" where
  "sanitize_log_input v = sanitize_for_logging v 1000"

subsection \<open>Safe exception messages and the generic error response\<close>

text \<open>An exception, as far as the module looks at it: the name of its class and its text.\<close>

record exception =
  type_name :: string
  message :: string

definition safe_messages :: "(string \<times> string) list" where
  "safe_messages =
     [(''ConnectionError'', ''Unable to connect to the external service.''),
      (''TimeoutError'', ''The operation timed out.''),
      (''PermissionError'', ''Permission denied.''),
      (''FileNotFoundError'', ''The requested file was not found.''),
      (''ValidationError'', ''The provided data is invalid.''),
      (''AuthenticationError'', ''Authentication failed.'')]"

definition get_safe_exception_message :: "exception \<Rightarrow> bool \<Rightarrow> string" where
  "get_safe_exception_message exc include_type =
     (let exc_type = type_name exc
      in case map_of safe_messages exc_type of
           Some msg \<Rightarrow> msg
         | None \<Rightarrow>
             if include_type
             then ''An error occurred ('' @ exc_type
                  @ ''). Please try again or contact support.''
             else ''An error occurred. Please try again or contact support.'')"

text \<open>\<open>detail or default\<close>: the default stands in for \<open>None\<close> and for the empty string.\<close>

definition str_or :: "string option \<Rightarrow> string \<Rightarrow> string" where
  "str_or detail dflt = (case detail of None \<Rightarrow> dflt | Some d \<Rightarrow> if d = [] then dflt else d)"

definition create_generic_error_response :: "string option \<Rightarrow> (string \<rightharpoonup> string)" where
  "create_generic_error_response detail =
     [''detail'' \<mapsto>
        str_or detail
          ''An internal error occurred. Please contact support if the issue persists.'']"

subsection \<open>The specification's wording of two stages\<close>

text \<open>
  An escape sequence as the specification describes it: ESC and one byte of the first
  class, or ESC, an opening bracket, any number of parameter bytes, any number of
  intermediate bytes and one final byte. The first class is the one of the source's
  pattern, which leaves the bracket out.
\<close>

definition ansi_seq :: "string \<Rightarrow> bool" where
  "ansi_seq m =
     ((\<exists>c. is_fe c \<and> m = [ESC, c]) \<or>
      (\<exists>ps is f. list_all is_param ps \<and> list_all is_inter is \<and> is_final f \<and>
                 m = ESC # CHR ''['' # ps @ is @ [f]))"

text \<open>The escaped text of one character: line feed and carriage return become two
  characters, a backslash and a letter; every other character stays.\<close>

definition escape_char :: "char \<Rightarrow> string" where
  "escape_char c =
     (if c = LF then [BSL, CHR ''n''] else if c = CR then [BSL, CHR ''r''] else [c])"

section \<open>Properties\<close>

subsection \<open>Auxiliary facts\<close>

lemma str_contains_iff_sublist: "str_contains sub s = sublist sub s"
  by (induction s) (simp_all add: sublist_Cons_right)

lemma class_facts:
  "\<not> is_fe ESC" "\<not> is_param ESC" "\<not> is_inter ESC" "\<not> is_final ESC" "\<not> is_fe (CHR ''['')"
  by (simp_all add: is_fe_def is_param_def is_inter_def is_final_def in_range_def)

lemma class_disjoint:
  "is_inter c \<Longrightarrow> \<not> is_param c" "is_final c \<Longrightarrow> \<not> is_param c" "is_final c \<Longrightarrow> \<not> is_inter c"
  by (auto simp: is_param_def is_inter_def is_final_def in_range_def)

lemma dropWhile_classes:
  assumes "list_all is_param ps" "list_all is_inter is" "is_final f"
  shows "dropWhile is_inter (dropWhile is_param (ps @ is @ f # w)) = f # w"
proof -
  have "dropWhile is_param (ps @ is @ f # w) = dropWhile is_param (is @ f # w)"
    using assms(1) by (simp add: dropWhile_append2 list_all_iff)
  also have "\<dots> = is @ f # w"
    using assms(2,3) by (cases "is") (simp_all add: class_disjoint)
  finally show ?thesis
    using assms(2,3) by (simp add: dropWhile_append2 list_all_iff class_disjoint)
qed

lemma ansi_match_complete:
  assumes "ansi_seq m"
  shows "ansi_match (m @ w) = Some w"
  using assms unfolding ansi_seq_def
proof (elim disjE exE conjE)
  fix c assume "is_fe c" "m = [ESC, c]"
  then show ?thesis by (simp add: ansi_match_def)
next
  fix ps "is" f
  assume a: "list_all is_param ps" "list_all is_inter is" "is_final f"
    and m: "m = ESC # CHR ''['' # ps @ is @ [f]"
  from dropWhile_classes [OF a, of w] m a(3) show ?thesis
    by (simp add: ansi_match_def class_facts)
qed

lemma ansi_match_sound:
  assumes "ansi_match s = Some r"
  shows "\<exists>m. ansi_seq m \<and> s = m @ r"
proof -
  from assms obtain c rest where s: "s = ESC # c # rest"
    by (auto simp: ansi_match_def split: list.splits if_splits)
  show ?thesis
  proof (cases "is_fe c")
    case True
    with assms s have "r = rest" by (simp add: ansi_match_def)
    with True s have "ansi_seq [ESC, c] \<and> s = [ESC, c] @ r" by (simp add: ansi_seq_def)
    then show ?thesis ..
  next
    case False
    let ?d = "dropWhile is_param rest"
    from assms s False obtain f where c: "c = CHR ''[''"
      and d: "dropWhile is_inter ?d = f # r" and f: "is_final f"
      by (auto simp: ansi_match_def split: list.splits if_splits)
    let ?ps = "takeWhile is_param rest" and ?is = "takeWhile is_inter ?d"
    have "rest = ?ps @ ?d" by simp
    also have "?d = ?is @ dropWhile is_inter ?d" by simp
    finally have "rest = ?ps @ ?is @ f # r" using d by simp
    with s c have "s = (ESC # CHR ''['' # ?ps @ ?is @ [f]) @ r" by simp
    moreover have "list_all is_param ?ps" "list_all is_inter ?is"
      by (auto simp: list_all_iff dest: set_takeWhileD)
    with f have "ansi_seq (ESC # CHR ''['' # ?ps @ ?is @ [f])"
      unfolding ansi_seq_def by blast
    ultimately show ?thesis by blast
  qed
qed

lemma ansi_match_before_ESC:
  "ansi_match ((c # cs) @ ESC # t) = map_option (\<lambda>r. r @ ESC # t) (ansi_match (c # cs))"
proof (cases cs)
  case Nil
  then show ?thesis by (simp add: ansi_match_def class_facts)
next
  case (Cons b r)
  define D where "D = dropWhile is_inter (dropWhile is_param r)"
  have d: "dropWhile is_inter (dropWhile is_param (r @ ESC # t)) = D @ ESC # t"
    by (simp add: D_def dropWhile_append3 class_facts)
  have l: "ansi_match ((c # cs) @ ESC # t) =
      (if c \<noteq> ESC then None else if is_fe b then Some (r @ ESC # t)
       else if b = CHR ''['' then
         (case D @ ESC # t of f # rest' \<Rightarrow> if is_final f then Some rest' else None
          | [] \<Rightarrow> None)
       else None)"
    by (simp add: Cons ansi_match_def d)
  have r: "ansi_match (c # cs) =
      (if c \<noteq> ESC then None else if is_fe b then Some r
       else if b = CHR ''['' then
         (case D of f # rest' \<Rightarrow> if is_final f then Some rest' else None | [] \<Rightarrow> None)
       else None)"
    by (simp add: Cons ansi_match_def D_def)
  show ?thesis unfolding l r
    by (cases D) (simp_all add: class_facts)
qed

lemma ansi_escape_sub_before_ESC:
  "ansi_escape_sub (u @ ESC # t) = ansi_escape_sub u @ ansi_escape_sub (ESC # t)"
proof (induction u rule: ansi_escape_sub.induct)
  case 1
  show ?case by simp
next
  case (2 c cs)
  have step: "ansi_escape_sub ((c # cs) @ ESC # t) =
      (case ansi_match ((c # cs) @ ESC # t) of
         Some rest \<Rightarrow> ansi_escape_sub rest
       | None \<Rightarrow> c # ansi_escape_sub (cs @ ESC # t))"
    by simp
  show ?case
  proof (cases "ansi_match (c # cs)")
    case None
    then have "ansi_escape_sub ((c # cs) @ ESC # t) = c # ansi_escape_sub (cs @ ESC # t)"
      unfolding step ansi_match_before_ESC by simp
    also have "\<dots> = c # ansi_escape_sub cs @ ansi_escape_sub (ESC # t)"
      using 2(1) [OF None] by simp
    also have "\<dots> = ansi_escape_sub (c # cs) @ ansi_escape_sub (ESC # t)"
      using None by simp
    finally show ?thesis .
  next
    case (Some r)
    then have "ansi_escape_sub ((c # cs) @ ESC # t) = ansi_escape_sub (r @ ESC # t)"
      unfolding step ansi_match_before_ESC by simp
    also have "\<dots> = ansi_escape_sub r @ ansi_escape_sub (ESC # t)"
      using 2(2) [OF Some] .
    also have "\<dots> = ansi_escape_sub (c # cs) @ ansi_escape_sub (ESC # t)"
      using Some by simp
    finally show ?thesis .
  qed
qed

lemma ansi_seq_starts_ESC: "ansi_seq m \<Longrightarrow> \<exists>m'. m = ESC # m'"
  by (auto simp: ansi_seq_def)

lemma ansi_escape_sub_removes:
  assumes "ansi_seq m"
  shows "ansi_escape_sub (u @ m @ w) = ansi_escape_sub u @ ansi_escape_sub w"
proof -
  from ansi_seq_starts_ESC [OF assms] obtain m' where m: "m = ESC # m'" ..
  have "ansi_escape_sub (m @ w) = ansi_escape_sub w"
    using ansi_match_complete [OF assms, of w] by (simp add: m)
  with ansi_escape_sub_before_ESC [of u "m' @ w"] show ?thesis by (simp add: m)
qed

lemma ansi_escape_sub_keeps:
  assumes "\<And>u m w. t = u @ m @ w \<Longrightarrow> \<not> ansi_seq m"
  shows "ansi_escape_sub t = t"
  using assms
proof (induction t)
  case Nil
  show ?case by simp
next
  case (Cons c cs)
  have "ansi_match (c # cs) = None"
  proof (cases "ansi_match (c # cs)")
    case (Some r)
    from ansi_match_sound [OF Some] obtain m where "ansi_seq m" "c # cs = [] @ m @ r" by auto
    with Cons.prems show ?thesis by blast
  qed simp
  moreover have "ansi_escape_sub cs = cs"
  proof (rule Cons.IH)
    fix u m w assume "cs = u @ m @ w"
    then have "c # cs = (c # u) @ m @ w" by simp
    then show "\<not> ansi_seq m" by (rule Cons.prems)
  qed
  ultimately show ?case by simp
qed

lemma replace_str_single:
  "replace_str [a] new s = concat (map (\<lambda>c. if c = a then new else [c]) s)"
  by (induction s) auto

lemma escape_newlines_chars: "escape_newlines s = concat (map escape_char s)"
proof -
  define X where "X = [BSL, CHR ''r'', BSL, CHR ''n'']"
  define g where "g = (\<lambda>t. concat (map (\<lambda>c. if c = CR then [BSL, CHR ''r''] else [c])
                           (concat (map (\<lambda>c. if c = LF then [BSL, CHR ''n''] else [c]) t))))"
  have g_Cons: "g (c # t) = escape_char c @ g t" for c t
    by (simp add: g_def escape_char_def)
  have g_X: "g (X @ t) = escape_char CR @ escape_char LF @ g t" for t
    by (simp add: g_def X_def escape_char_def)
  have "g (replace_str [CR, LF] X s) = concat (map escape_char s)"
  proof (induction s rule: length_induct)
    case (1 s)
    show ?case
    proof (cases s)
      case Nil
      then show ?thesis by (simp add: g_def)
    next
      case (Cons c cs)
      show ?thesis
      proof (cases "prefix [CR, LF] (c # cs)")
        case True
        then obtain r where r: "c = CR" "cs = LF # r"
          by (auto simp: prefix_def)
        from 1 Cons r have "g (replace_str [CR, LF] X r) = concat (map escape_char r)"
          by simp
        moreover have "replace_str [CR, LF] X s = X @ replace_str [CR, LF] X r"
          using Cons r by simp
        ultimately show ?thesis using Cons r by (simp add: g_X)
      next
        case False
        from 1 Cons have "g (replace_str [CR, LF] X cs) = concat (map escape_char cs)"
          by simp
        moreover have "replace_str [CR, LF] X s = c # replace_str [CR, LF] X cs"
          using Cons False by auto
        ultimately show ?thesis using Cons by (simp add: g_Cons)
      qed
    qed
  qed
  then show ?thesis by (simp add: escape_newlines_def replace_str_single g_def X_def)
qed

lemma escape_newlines_no_line_end:
  "LF \<notin> set (escape_newlines s) \<and> CR \<notin> set (escape_newlines s)"
  unfolding escape_newlines_chars by (induction s) (simp_all add: escape_char_def)


lemma set_ansi_escape_sub: "set (ansi_escape_sub s) \<subseteq> set s"
proof (induction s rule: ansi_escape_sub.induct)
  case 1
  show ?case by simp
next
  case (2 c cs)
  show ?case
  proof (cases "ansi_match (c # cs)")
    case None
    then have "ansi_escape_sub (c # cs) = c # ansi_escape_sub cs" by simp
    with 2(1) [OF None] show ?thesis by auto
  next
    case (Some r)
    from ansi_match_sound [OF Some] obtain m where "c # cs = m @ r" by blast
    then have "set r \<subseteq> set (c # cs)" by (metis set_append sup_ge2)
    moreover have "ansi_escape_sub (c # cs) = ansi_escape_sub r" using Some by simp
    ultimately show ?thesis using 2(2) [OF Some] by (metis order_trans)
  qed
qed

lemma set_truncate_log: "set (truncate_log n t) \<subseteq> set t \<union> set ''...[truncated]''"
proof -
  define sfx where "sfx = ''...[truncated]''"
  have s: "set (slice_to n t) \<subseteq> set t"
    unfolding slice_to_def Let_def by (rule set_take_subset)
  have t: "truncate_log n t = (if int (length t) > n then slice_to n t @ sfx else t)"
    by (simp only: truncate_log_def sfx_def)
  have "set (truncate_log n t) \<subseteq> set t \<union> set sfx"
    unfolding t using s by auto
  then show ?thesis unfolding sfx_def .
qed

lemma ansi_match_not_ESC: "c \<noteq> ESC \<Longrightarrow> ansi_match (c # t) = None"
  by (cases t) (simp_all add: ansi_match_def)

lemma sanitize_replicate:
  assumes "c \<noteq> LF" "c \<noteq> CR" "c \<noteq> ESC"
  shows "ansi_escape_sub (escape_newlines (replicate n c)) = replicate n c"
proof -
  have e: "escape_char c = [c]" using assms(1,2) by (simp add: escape_char_def)
  have "escape_newlines (replicate n c) = replicate n c"
    unfolding escape_newlines_chars by (induction n) (simp_all add: e)
  moreover have "ansi_escape_sub (replicate n c) = replicate n c"
    by (induction n) (simp_all add: ansi_match_not_ESC [OF assms(3)])
  ultimately show ?thesis by simp
qed

subsection \<open>Generic error response\<close>

text \<open>
  Claim C1, as amended. The response has the single key \<open>detail\<close>. Its value is the
  fixed text when no detail is given and also when the detail is the empty string
  (\<open>detail or ...\<close> treats both alike); every non-empty detail is returned unchanged.
\<close>

theorem create_generic_error_response_detail:
  "dom (create_generic_error_response detail) = {''detail''}
   \<and> create_generic_error_response None ''detail''
       = Some ''An internal error occurred. Please contact support if the issue persists.''
   \<and> create_generic_error_response (Some []) ''detail''
       = Some ''An internal error occurred. Please contact support if the issue persists.''
   \<and> (d \<noteq> [] \<longrightarrow> create_generic_error_response (Some d) ''detail'' = Some d)"
  by (simp add: create_generic_error_response_def str_or_def)

theorem create_generic_error_response_detail_witness:
  "''Bad request'' \<noteq> []
   \<and> create_generic_error_response (Some ''Bad request'') ''detail'' = Some ''Bad request''"
  using create_generic_error_response_detail [where d = "''Bad request''"] by simp

text \<open>The claim as first stated fails for the empty detail string, which is replaced.\<close>

theorem create_generic_error_response_empty_detail_counterexample:
  "create_generic_error_response (Some []) ''detail'' \<noteq> Some []"
  by (simp add: create_generic_error_response_def str_or_def)

subsection \<open>Masking\<close>

text \<open>
  Claim C2. With \<open>visible_chars = 0\<close> and a non-empty value, the result is one asterisk
  per character followed by the whole value: nothing is hidden.
\<close>

theorem mask_sensitive_value_zero_visible:
  "v \<noteq> [] \<Longrightarrow> mask_sensitive_value v 0 = replicate (length v) (CHR ''*'') @ v"
  by (simp add: mask_sensitive_value_def str_repeat_def slice_from_def)

theorem mask_sensitive_value_zero_visible_witness:
  "''secret'' \<noteq> [] \<and> mask_sensitive_value ''secret'' 0 = ''******secret''"
  using mask_sensitive_value_zero_visible [of "''secret''"] by simp

text \<open>
  Claim C4. With the default \<open>visible_chars = 4\<close>, the result is \<open>****\<close> for an empty
  value and for a value of at most four characters; otherwise it is one asterisk for
  each character but the last four, followed by the last four characters, and so as long
  as the value.
\<close>

theorem mask_sensitive_value_default:
  "mask_sensitive_value v 4
     = (if v = [] \<or> length v \<le> 4 then ''****''
        else replicate (length v - 4) (CHR ''*'') @ drop (length v - 4) v)
   \<and> (4 < length v \<longrightarrow> length (mask_sensitive_value v 4) = length v)"
proof -
  have "nat (int (length v) - 4) = length v - 4" by simp
  then show ?thesis
    by (simp add: mask_sensitive_value_def str_repeat_def slice_from_def)
qed

theorem mask_sensitive_value_default_witness:
  "mask_sensitive_value ''abcdefgh'' 4 = ''****efgh''
   \<and> 4 < length ''abcdefgh''
   \<and> length (mask_sensitive_value ''abcdefgh'' 4) = length ''abcdefgh''"
  using mask_sensitive_value_default [of "''abcdefgh''"] by simp

subsection \<open>Safe exception messages\<close>

text \<open>
  Claim C5. For an exception whose class name is one of the six keys of the table, the
  result is the message the table gives for that name; two exceptions of that class get
  the same result, whatever their own message texts and whatever \<open>include_type\<close> is.
\<close>

theorem get_safe_exception_message_known:
  fixes e1 e2 :: exception
  assumes "type_name e1 \<in> {''ConnectionError'', ''TimeoutError'', ''PermissionError'',
                            ''FileNotFoundError'', ''ValidationError'', ''AuthenticationError''}"
    and "type_name e2 = type_name e1"
  shows "map_of safe_messages (type_name e1) = Some (get_safe_exception_message e1 i1)
         \<and> get_safe_exception_message e2 i2 = get_safe_exception_message e1 i1"
  using assms by (auto simp: get_safe_exception_message_def safe_messages_def)

theorem get_safe_exception_message_known_witness:
  "get_safe_exception_message \<lparr>type_name = ''TimeoutError'', message = ''read timed out''\<rparr> True
     = ''The operation timed out.''
   \<and> get_safe_exception_message \<lparr>type_name = ''TimeoutError'', message = ''10.0.0.7:5432''\<rparr> False
     = ''The operation timed out.''"
  using get_safe_exception_message_known
    [of "\<lparr>type_name = ''TimeoutError'', message = ''read timed out''\<rparr>"
        "\<lparr>type_name = ''TimeoutError'', message = ''10.0.0.7:5432''\<rparr>" True False]
  by (simp add: safe_messages_def)

text \<open>
  Claim C3, as amended. For an exception whose class name is not a key of the table:
  with \<open>include_type\<close> the result is the text with the class name between the brackets,
  so it contains the class name; without it the result is the one fixed text, into which
  the class name is not inserted.
\<close>

theorem get_safe_exception_message_unknown:
  fixes exc :: exception
  assumes "type_name exc \<notin> fst ` set safe_messages"
  shows "get_safe_exception_message exc True
           = ''An error occurred ('' @ type_name exc
             @ ''). Please try again or contact support.''
         \<and> str_contains (type_name exc) (get_safe_exception_message exc True)
         \<and> get_safe_exception_message exc False
           = ''An error occurred. Please try again or contact support.''"
proof -
  from assms have n: "map_of safe_messages (type_name exc) = None"
    by (simp add: map_of_eq_None_iff)
  have t: "get_safe_exception_message exc True
           = ''An error occurred ('' @ type_name exc
             @ ''). Please try again or contact support.''"
    by (simp add: get_safe_exception_message_def n)
  have "str_contains (type_name exc) (get_safe_exception_message exc True)"
    unfolding t str_contains_iff_sublist by (rule sublist_appendI)
  moreover have "get_safe_exception_message exc False
           = ''An error occurred. Please try again or contact support.''"
    by (simp add: get_safe_exception_message_def n)
  ultimately show ?thesis using t by blast
qed

theorem get_safe_exception_message_unknown_witness:
  "''KeyError'' \<notin> fst ` set safe_messages
   \<and> get_safe_exception_message \<lparr>type_name = ''KeyError'', message = ''user_id''\<rparr> True
       = ''An error occurred (KeyError). Please try again or contact support.''
   \<and> get_safe_exception_message \<lparr>type_name = ''KeyError'', message = ''user_id''\<rparr> False
       = ''An error occurred. Please try again or contact support.''"
proof -
  have h: "type_name \<lparr>type_name = ''KeyError'', message = ''user_id''\<rparr>
           \<notin> fst ` set safe_messages"
    by (simp add: safe_messages_def)
  from get_safe_exception_message_unknown [OF h] h show ?thesis by simp
qed

text \<open>
  The claim as first stated fails for the class name \<open>error\<close> (that of \<open>struct.error\<close>):
  it is not in the table, and the fixed text contains it.
\<close>

theorem get_safe_exception_message_kind_in_fallback_counterexample:
  "''error'' \<notin> fst ` set safe_messages
   \<and> str_contains ''error''
        (get_safe_exception_message
           \<lparr>type_name = ''error'', message = ''bad char in struct format''\<rparr> False)"
  by (simp add: get_safe_exception_message_def safe_messages_def)

subsection \<open>Sensitive field names\<close>

text \<open>
  Claim C9. A field name is sensitive exactly when some member of the fixed set occurs
  as a contiguous part of the lower-cased name; the empty name and \<open>username\<close> are not
  sensitive.
\<close>

theorem is_sensitive_field_iff:
  "(is_sensitive_field field_name
      \<longleftrightarrow> (\<exists>sensitive \<in> SENSITIVE_FIELDS. sublist sensitive (lower field_name)))
   \<and> \<not> is_sensitive_field []
   \<and> \<not> is_sensitive_field ''username''"
proof -
  have "\<not> is_sensitive_field []"
    by (simp add: is_sensitive_field_def SENSITIVE_FIELDS_def lower_def)
  moreover have "\<not> is_sensitive_field ''username''"
    by (simp add: is_sensitive_field_def SENSITIVE_FIELDS_def lower_def lower_char_def)
  ultimately show ?thesis
    by (simp add: is_sensitive_field_def str_contains_iff_sublist)
qed

theorem is_sensitive_field_iff_witness:
  "''password'' \<in> SENSITIVE_FIELDS
   \<and> sublist ''password'' (lower ''User_PassWord'')
   \<and> is_sensitive_field ''User_PassWord''"
proof -
  have m: "''password'' \<in> SENSITIVE_FIELDS" by (simp add: SENSITIVE_FIELDS_def)
  have "str_contains ''password'' (lower ''User_PassWord'')"
    by code_simp
  then have s: "sublist ''password'' (lower ''User_PassWord'')"
    by (simp only: str_contains_iff_sublist)
  from m s is_sensitive_field_iff [of "''User_PassWord''"] show ?thesis by blast
qed

subsection \<open>Log sanitizer\<close>

text \<open>
  Claim C10. \<open>sanitize_log_input\<close> returns what \<open>sanitize_for_logging\<close> returns with the
  default maximal length 1000, for every value.
\<close>

theorem sanitize_log_input_delegates:
  "sanitize_log_input v = sanitize_for_logging v 1000"
  by (simp add: sanitize_log_input_def)

lemma ansi_seq_csi_31m: "ansi_seq [ESC, CHR ''['', CHR ''3'', CHR ''1'', CHR ''m'']"
proof -
  have "list_all is_param ''31''" "list_all is_inter []" "is_final (CHR ''m'')"
    by (simp_all add: is_param_def is_final_def in_range_def)
  moreover have "[ESC, CHR ''['', CHR ''3'', CHR ''1'', CHR ''m'']
                 = ESC # CHR ''['' # ''31'' @ [] @ [CHR ''m'']" by simp
  ultimately show ?thesis unfolding ansi_seq_def by blast
qed

lemma sanitize_x2000:
  "sanitize_for_logging (Some (replicate 2000 (CHR ''x''))) 1000
     = replicate 1000 (CHR ''x'') @ ''...[truncated]''"
proof -
  have "ansi_escape_sub (escape_newlines (replicate 2000 (CHR ''x''))) = replicate 2000 (CHR ''x'')"
    by (rule sanitize_replicate) simp_all
  then show ?thesis
    by (simp add: sanitize_for_logging_def truncate_log_def slice_to_def)
qed

text \<open>
  Claim C7. Every part of the escaped input that is an escape sequence (ESC and a byte
  of the first class, or ESC, a bracket, parameter bytes, intermediate bytes and a final
  byte) is removed wherever it stands, and an input without such a part is left as it
  is; the sanitizer applies this removal to the escaped input, and the red text example
  gives \<open>red\<close>.
\<close>

theorem sanitize_for_logging_strips_ansi:
  "(ansi_seq m \<longrightarrow> ansi_escape_sub (u @ m @ w) = ansi_escape_sub u @ ansi_escape_sub w)
   \<and> ((\<forall>u m w. t = u @ m @ w \<longrightarrow> \<not> ansi_seq m) \<longrightarrow> ansi_escape_sub t = t)
   \<and> sanitize_for_logging (Some s) n
       = truncate_log n (ansi_escape_sub (escape_newlines s))
   \<and> sanitize_for_logging
         (Some ([ESC, CHR ''['', CHR ''3'', CHR ''1'', CHR ''m''] @ ''red''
                @ [ESC, CHR ''['', CHR ''0'', CHR ''m''])) 1000
       = ''red''"
proof (intro conjI impI)
  assume "ansi_seq m"
  then show "ansi_escape_sub (u @ m @ w) = ansi_escape_sub u @ ansi_escape_sub w"
    by (rule ansi_escape_sub_removes)
next
  assume "\<forall>u m w. t = u @ m @ w \<longrightarrow> \<not> ansi_seq m"
  then show "ansi_escape_sub t = t"
    by (intro ansi_escape_sub_keeps) blast
next
  show "sanitize_for_logging (Some s) n
       = truncate_log n (ansi_escape_sub (escape_newlines s))"
    by (simp add: sanitize_for_logging_def)
next
  show "sanitize_for_logging
         (Some ([ESC, CHR ''['', CHR ''3'', CHR ''1'', CHR ''m''] @ ''red''
                @ [ESC, CHR ''['', CHR ''0'', CHR ''m''])) 1000
       = ''red''"
    by (simp add: sanitize_for_logging_def escape_newlines_def truncate_log_def
          ansi_match_def is_fe_def is_param_def is_inter_def is_final_def in_range_def)
qed

theorem sanitize_for_logging_strips_ansi_witness:
  "ansi_seq [ESC, CHR ''['', CHR ''3'', CHR ''1'', CHR ''m'']
   \<and> ansi_escape_sub (''a'' @ [ESC, CHR ''['', CHR ''3'', CHR ''1'', CHR ''m''] @ ''b'') = ''ab''
   \<and> ansi_escape_sub ''red'' = ''red''"
proof -
  have plain: "ansi_escape_sub ''a'' = ''a''" "ansi_escape_sub ''b'' = ''b''"
    by (simp_all add: ansi_match_def)
  have none: "\<forall>u m w. ''red'' = u @ m @ w \<longrightarrow> \<not> ansi_seq m"
  proof (intro allI impI notI)
    fix u m w
    assume e: "''red'' = u @ m @ w" and "ansi_seq m"
    from ansi_seq_starts_ESC [OF this(2)] have "ESC \<in> set m" by auto
    then have "ESC \<in> set (u @ m @ w)" by simp
    with e [symmetric] show False by simp
  qed
  from sanitize_for_logging_strips_ansi
         [of "[ESC, CHR ''['', CHR ''3'', CHR ''1'', CHR ''m'']" "''a''" "''b''" "''red''"]
       ansi_seq_csi_31m none plain
  show ?thesis by simp
qed

text \<open>
  Claim C6, as amended. For a maximal length that is not negative: when the escaped and
  stripped text is longer, the result is its first \<open>max_length\<close> characters followed by
  the suffix \<open>...[truncated]\<close>. For 2000 letters \<open>x\<close> and the maximal length 1000 the
  result has 1000 characters more than the suffix and ends with the suffix.
\<close>

theorem sanitize_for_logging_truncates:
  "(0 \<le> max_length \<and> max_length < int (length (ansi_escape_sub (escape_newlines s))) \<longrightarrow>
      sanitize_for_logging (Some s) max_length
        = take (nat max_length) (ansi_escape_sub (escape_newlines s)) @ ''...[truncated]'')
   \<and> length (sanitize_for_logging (Some (replicate 2000 (CHR ''x''))) 1000)
        = 1000 + length ''...[truncated]''
   \<and> suffix ''...[truncated]'' (sanitize_for_logging (Some (replicate 2000 (CHR ''x''))) 1000)"
proof (intro conjI impI)
  assume "0 \<le> max_length \<and> max_length < int (length (ansi_escape_sub (escape_newlines s)))"
  then show "sanitize_for_logging (Some s) max_length
        = take (nat max_length) (ansi_escape_sub (escape_newlines s)) @ ''...[truncated]''"
    by (simp add: sanitize_for_logging_def truncate_log_def slice_to_def)
next
  show "length (sanitize_for_logging (Some (replicate 2000 (CHR ''x''))) 1000)
        = 1000 + length ''...[truncated]''"
    by (simp add: sanitize_x2000)
next
  show "suffix ''...[truncated]'' (sanitize_for_logging (Some (replicate 2000 (CHR ''x''))) 1000)"
    unfolding sanitize_x2000 by (rule suffixI) (rule refl)
qed

theorem sanitize_for_logging_truncates_witness:
  "(0::int) \<le> 3 \<and> 3 < int (length (ansi_escape_sub (escape_newlines ''abcdef'')))
   \<and> sanitize_for_logging (Some ''abcdef'') 3 = ''abc...[truncated]''"
proof -
  have e: "ansi_escape_sub (escape_newlines ''abcdef'') = ''abcdef''"
    by (simp add: escape_newlines_def ansi_match_def)
  from sanitize_for_logging_truncates [of 3 "''abcdef''"] show ?thesis
    unfolding e by simp
qed

text \<open>
  The claim as first stated, for every maximal length, fails for a negative one: the
  slice \<open>[:-1]\<close> drops the last character instead of keeping none.
\<close>

theorem sanitize_for_logging_negative_max_length_counterexample:
  "- 1 < int (length (ansi_escape_sub (escape_newlines ''ab'')))
   \<and> sanitize_for_logging (Some ''ab'') (- 1) = ''a...[truncated]''
   \<and> sanitize_for_logging (Some ''ab'') (- 1)
       \<noteq> take (nat (- 1)) (ansi_escape_sub (escape_newlines ''ab'')) @ ''...[truncated]''"
  by (simp add: sanitize_for_logging_def truncate_log_def slice_to_def escape_newlines_def
        ansi_match_def)

text \<open>
  Claim C8. The sanitizer replaces first every CR LF pair by the four characters
  backslash, r, backslash, n, then every line feed left by backslash, n, then every
  carriage return left by backslash, r. The outcome of the three steps is the input
  with each line feed and each carriage return escaped and every other character kept,
  so the result of the sanitizer holds no line feed and no carriage return; the two-line
  example gives the text with backslash and n between the lines.
\<close>

theorem sanitize_for_logging_escapes_line_ends:
  "sanitize_for_logging (Some s) n
     = truncate_log n (ansi_escape_sub
         (replace_str [CR] [BSL, CHR ''r'']
            (replace_str [LF] [BSL, CHR ''n'']
               (replace_str [CR, LF] [BSL, CHR ''r'', BSL, CHR ''n''] s))))
   \<and> escape_newlines s = concat (map escape_char s)
   \<and> LF \<notin> set (sanitize_for_logging v n) \<and> CR \<notin> set (sanitize_for_logging v n)
   \<and> sanitize_for_logging (Some (''line1'' @ [LF] @ ''line2'')) 1000
       = ''line1'' @ [BSL, CHR ''n''] @ ''line2''"
proof -
  have no: "LF \<notin> set (sanitize_for_logging v n) \<and> CR \<notin> set (sanitize_for_logging v n)"
  proof (cases v)
    case None
    then show ?thesis by (simp add: sanitize_for_logging_def)
  next
    case (Some s')
    define t where "t = ansi_escape_sub (escape_newlines s')"
    have r: "sanitize_for_logging v n = truncate_log n t"
      by (simp add: Some sanitize_for_logging_def t_def)
    have "LF \<notin> set t \<and> CR \<notin> set t"
      using set_ansi_escape_sub [of "escape_newlines s'"] escape_newlines_no_line_end [of s']
      unfolding t_def by blast
    moreover have "LF \<notin> set ''...[truncated]'' \<and> CR \<notin> set ''...[truncated]''"
      by simp
    ultimately show ?thesis
      unfolding r using set_truncate_log [of n t] by blast
  qed
  have ex: "sanitize_for_logging (Some (''line1'' @ [LF] @ ''line2'')) 1000
       = ''line1'' @ [BSL, CHR ''n''] @ ''line2''"
    by (simp add: sanitize_for_logging_def escape_newlines_def truncate_log_def ansi_match_def)
  have order: "sanitize_for_logging (Some s) n
     = truncate_log n (ansi_escape_sub
         (replace_str [CR] [BSL, CHR ''r'']
            (replace_str [LF] [BSL, CHR ''n'']
               (replace_str [CR, LF] [BSL, CHR ''r'', BSL, CHR ''n''] s))))"
    by (simp add: sanitize_for_logging_def escape_newlines_def)
  from order escape_newlines_chars [of s] no ex show ?thesis by blast
qed

end
